theory Spec2Isabelle
  imports Complex_Main
begin

section \<open>The prediction market of \<open>src/prediction/model.py\<close>\<close>

text \<open>
  The market is a continuous double auction. Every agent holds a belief \<open>prob\<close> and one
  bid and one ask; the model owns two ordered dictionaries, \<open>bidders\<close> and \<open>askers\<close>,
  from agent identity to price, and a volume counter.

  Modelling decisions.
  \<^item> Prices are Python floats in the source. They are modelled as exact reals, with the
    step \<open>0.01\<close> as \<open>1/100\<close>: rounding error of binary floating point is not modelled.
  \<^item> An \<open>OrderedDict\<close> is an association list in iteration order. \<open>popitem()\<close> removes the
    last pair and raises \<open>KeyError\<close> on an empty dictionary; \<open>d[k] = v\<close> replaces the value
    of an existing key in place and appends a new key at the end.
  \<^item> \<open>sorted(..., key=itemgetter(1))\<close> is a stable sort on the price, \<open>sort_key snd\<close>;
    with \<open>reverse=True\<close> Python still keeps equal elements in their original order, which
    is the stable sort on the negated price.
  \<^item> \<open>np.nan\<close> is \<open>None\<close> of \<open>real option\<close>; every comparison with it is false.
  \<^item> An agent's \<open>unique_id\<close> is its index in the list of agents (the constructor numbers
    the agents \<open>0 .. N-1\<close> in the order in which it adds them to the schedule).
  \<^item> The random draws of the source are inputs of the model: the beliefs drawn at
    construction are a list of reals, and the shuffled activation order of one step is a
    list of agent indices.
\<close>

subsection \<open>Data\<close>

datatype error = KeyError

record agent =
  prob :: real
  bid :: real
  ask :: real

type_synonym book = "(nat \<times> real) list"

record market =
  agents :: "agent list"
  bidders :: book
  askers :: book
  volume :: int

text \<open>One row of the data collector: best bid, best ask and volume of a step.\<close>

type_synonym report = "real option \<times> real option \<times> int"

subsection \<open>Ordered dictionaries\<close>

fun popitem :: "book \<Rightarrow> error + ((nat \<times> real) \<times> book)" where
  "popitem [] = Inl KeyError"
| "popitem (x # xs) = Inr (last (x # xs), butlast (x # xs))"

fun setitem :: "nat \<Rightarrow> real \<Rightarrow> book \<Rightarrow> book" where
  "setitem k v [] = [(k, v)]"
| "setitem k v (x # xs) = (if fst x = k then (k, v) # xs else x # setitem k v xs)"

definition sorted_items :: "bool \<Rightarrow> book \<Rightarrow> book" where
  "sorted_items reverse d =
     (if reverse then sort_key (\<lambda>kv. - snd kv) d else sort_key snd d)"

fun nan_le :: "real option \<Rightarrow> real \<Rightarrow> bool" where
  "nan_le None y = False"
| "nan_le (Some x) y = (x \<le> y)"

fun nan_ge :: "real option \<Rightarrow> real \<Rightarrow> bool" where
  "nan_ge None y = False"
| "nan_ge (Some x) y = (x \<ge> y)"

subsection \<open>The reporters\<close>

definition get_highest_bid :: "market \<Rightarrow> error + (real option \<times> market)" where
  "get_highest_bid model =
     (if length (bidders model) \<noteq> 0 then
        (case popitem (bidders model) of
           Inl e \<Rightarrow> Inl e
         | Inr (highest_bid, rest) \<Rightarrow>
             let price = snd highest_bid in
             Inr (Some price,
                  model\<lparr>bidders := setitem (fst highest_bid) (snd highest_bid) rest\<rparr>))
      else Inr (None, model))"

definition get_lowest_ask :: "market \<Rightarrow> error + (real option \<times> market)" where
  "get_lowest_ask model =
     (if length (askers model) \<noteq> 0 then
        (case popitem (askers model) of
           Inl e \<Rightarrow> Inl e
         | Inr (lowest_ask, rest) \<Rightarrow>
             let price = snd lowest_ask in
             Inr (Some price,
                  model\<lparr>askers := setitem (fst lowest_ask) (snd lowest_ask) rest\<rparr>))
      else Inr (None, model))"

definition compute_volume :: "market \<Rightarrow> int" where
  "compute_volume model = volume model"

subsection \<open>Agents\<close>

text \<open>Python's \<open>round(p, 2)\<close>: the nearest multiple of \<open>0.01\<close>, a tie going to the even one.\<close>

definition round2 :: "real \<Rightarrow> real" where
  "round2 p =
     (let q = p * 100; f = \<lfloor>q\<rfloor>; d = q - of_int f
      in of_int (if d < 1/2 then f else if 1/2 < d then f + 1
                 else if even f then f else f + 1) / 100)"

definition clamp_prob :: "real \<Rightarrow> real" where
  "clamp_prob p0 =
     (let p = round2 p0 in
      if p \<ge> 1 then 99/100 else if p \<le> 0 then 1/100 else p)"

definition PredictionAgent_init :: "real \<Rightarrow> nat \<Rightarrow> market \<Rightarrow> market" where
  "PredictionAgent_init p unique_id model =
     (let a = \<lparr>prob = clamp_prob p, bid = 0, ask = 1\<rparr> in
      model\<lparr>agents := agents model @ [a],
            bidders := setitem unique_id (bid a) (bidders model),
            askers := setitem unique_id (ask a) (askers model)\<rparr>)"

definition update_bid :: "agent \<Rightarrow> real option \<Rightarrow> bool \<Rightarrow> real" where
  "update_bid self lowest_ask increase_bid =
     (let min_bid = 0; max_bid = prob self - 1/100 in
      if increase_bid then
        (if bid self + 1/100 \<ge> max_bid then max_bid else bid self + 1/100)
      else
        (if bid self - 1/100 < min_bid then min_bid else bid self - 1/100))"

definition update_ask :: "agent \<Rightarrow> real option \<Rightarrow> bool \<Rightarrow> real" where
  "update_ask self highest_bid decrease_ask =
     (let max_ask = 1; min_ask = prob self + 1/100 in
      if decrease_ask then
        (if ask self - 1/100 \<le> min_ask then min_ask else ask self - 1/100)
      else
        (if ask self + 1/100 > max_ask then max_ask else ask self + 1/100))"

definition place_bid :: "nat \<Rightarrow> real \<Rightarrow> market \<Rightarrow> market" where
  "place_bid i b model =
     model\<lparr>agents := (agents model)[i := (agents model ! i)\<lparr>bid := b\<rparr>],
           bidders := sorted_items False (setitem i b (bidders model))\<rparr>"

definition place_ask :: "nat \<Rightarrow> real \<Rightarrow> market \<Rightarrow> market" where
  "place_ask i a model =
     model\<lparr>agents := (agents model)[i := (agents model ! i)\<lparr>ask := a\<rparr>],
           askers := sorted_items True (setitem i a (askers model))\<rparr>"

definition buy :: "nat \<Rightarrow> market \<Rightarrow> error + market" where
  "buy i model =
     (if length (askers model) > 0 then
        (case get_lowest_ask model of
           Inl e \<Rightarrow> Inl e
         | Inr (lowest_price, m1) \<Rightarrow>
             if nan_le lowest_price (bid (agents m1 ! i)) then
               (case popitem (askers m1) of
                  Inl e \<Rightarrow> Inl e
                | Inr (taken, rest) \<Rightarrow>
                    let m2 = m1\<lparr>askers := rest\<rparr>;
                        new_bid = update_bid (agents m2 ! i) lowest_price False;
                        m3 = place_bid i new_bid m2
                    in Inr (m3\<lparr>volume := volume m3 + 1\<rparr>))
             else
               (let new_bid = update_bid (agents m1 ! i) lowest_price True
                in Inr (place_bid i new_bid m1)))
      else Inr model)"

definition sell :: "nat \<Rightarrow> market \<Rightarrow> error + market" where
  "sell i model =
     (if length (bidders model) > 0 then
        (case get_highest_bid model of
           Inl e \<Rightarrow> Inl e
         | Inr (highest_price, m1) \<Rightarrow>
             if nan_ge highest_price (ask (agents m1 ! i)) then
               (case popitem (bidders m1) of
                  Inl e \<Rightarrow> Inl e
                | Inr (taken, rest) \<Rightarrow>
                    let m2 = m1\<lparr>bidders := rest\<rparr>;
                        new_ask = update_ask (agents m2 ! i) highest_price False;
                        m3 = place_ask i new_ask m2
                    in Inr (m3\<lparr>volume := volume m3 + 1\<rparr>))
             else
               (let new_ask = update_ask (agents m1 ! i) highest_price True
                in Inr (place_ask i new_ask m1)))
      else Inr model)"

definition agent_step :: "nat \<Rightarrow> market \<Rightarrow> error + market" where
  "agent_step i model =
     (case buy i model of Inl e \<Rightarrow> Inl e | Inr m1 \<Rightarrow> sell i m1)"

subsection \<open>The model\<close>

definition empty_market :: market where
  "empty_market = \<lparr>agents = [], bidders = [], askers = [], volume = 0\<rparr>"

fun create_agents :: "nat \<Rightarrow> real list \<Rightarrow> market \<Rightarrow> market" where
  "create_agents i [] model = model"
| "create_agents i (p # ps) model = create_agents (Suc i) ps (PredictionAgent_init p i model)"

definition PredictionMarketModel_init :: "real list \<Rightarrow> market" where
  "PredictionMarketModel_init ps = create_agents 0 ps empty_market"

text \<open>The scheduler activates the agents in the shuffled order it is given.\<close>

fun schedule_step :: "nat list \<Rightarrow> market \<Rightarrow> error + market" where
  "schedule_step [] model = Inr model"
| "schedule_step (i # order) model =
     (case agent_step i model of Inl e \<Rightarrow> Inl e | Inr m1 \<Rightarrow> schedule_step order m1)"

text \<open>
  The data collector calls the three model reporters in turn. The row it stores is the
  result of \<open>collect\<close>, and so of \<open>step\<close>; \<open>run_model\<close> keeps the market only.
\<close>

definition collect :: "market \<Rightarrow> error + (report \<times> market)" where
  "collect model =
     (case get_highest_bid model of
        Inl e \<Rightarrow> Inl e
      | Inr (bid_price, m1) \<Rightarrow>
          (case get_lowest_ask m1 of
             Inl e \<Rightarrow> Inl e
           | Inr (ask_price, m2) \<Rightarrow>
               Inr ((bid_price, ask_price, compute_volume m2), m2)))"

definition step :: "nat list \<Rightarrow> market \<Rightarrow> error + (report \<times> market)" where
  "step order model =
     (case schedule_step order (model\<lparr>volume := 0\<rparr>) of
        Inl e \<Rightarrow> Inl e
      | Inr m1 \<Rightarrow> collect m1)"

fun run_model :: "nat list list \<Rightarrow> market \<Rightarrow> error + market" where
  "run_model [] model = Inr model"
| "run_model (order # orders) model =
     (case step order model of Inl e \<Rightarrow> Inl e | Inr (row, m1) \<Rightarrow> run_model orders m1)"

section \<open>Properties of states\<close>

text \<open>
  An attempt trades when the best opposite quote, the price of the last entry of the
  opposite collection, crosses the agent's own quote (the tests of lines 90 and 104).
\<close>

definition buy_trades :: "nat \<Rightarrow> market \<Rightarrow> bool" where
  "buy_trades i s = (askers s \<noteq> [] \<and> snd (last (askers s)) \<le> bid (agents s ! i))"

definition sell_trades :: "nat \<Rightarrow> market \<Rightarrow> bool" where
  "sell_trades i s = (bidders s \<noteq> [] \<and> snd (last (bidders s)) \<ge> ask (agents s ! i))"

text \<open>The range of an agent's belief and quotes.\<close>

definition quote_ok :: "agent \<Rightarrow> bool" where
  "quote_ok a = (1/100 \<le> prob a \<and> prob a \<le> 99/100 \<and>
                 0 \<le> bid a \<and> bid a \<le> prob a - 1/100 \<and>
                 prob a + 1/100 \<le> ask a \<and> ask a \<le> 1)"

definition range_ok :: "market \<Rightarrow> bool" where
  "range_ok s = list_all quote_ok (agents s)"

text \<open>
  A well-formed book: no key occurs twice in a collection, every entry belongs to an
  agent and carries that agent's current quote, the bidders are in ascending order of
  price and the askers in descending order.
\<close>

definition book_ok :: "market \<Rightarrow> bool" where
  "book_ok s =
     (distinct (map fst (bidders s)) \<and> distinct (map fst (askers s)) \<and>
      list_all (\<lambda>kv. fst kv < length (agents s) \<and> snd kv = bid (agents s ! fst kv)) (bidders s) \<and>
      list_all (\<lambda>kv. fst kv < length (agents s) \<and> snd kv = ask (agents s ! fst kv)) (askers s) \<and>
      sorted (map snd (bidders s)) \<and> sorted (map (\<lambda>kv. - snd kv) (askers s)))"

text \<open>The agent that the constructor builds from a drawn belief.\<close>

definition new_agent :: "real \<Rightarrow> agent" where
  "new_agent p = \<lparr>prob = clamp_prob p, bid = 0, ask = 1\<rparr>"

text \<open>
  The states a market built from the beliefs \<open>ps\<close> can be in: the constructed market, and
  every state that follows from one of them by the reset of the volume, by a buy or a
  sell attempt of one of its agents, or by a reporter. Every state that occurs during a
  run of \<open>run_model\<close>, between two attempts as well as between two steps, is among them.
\<close>

inductive reachable :: "real list \<Rightarrow> market \<Rightarrow> bool" for ps :: "real list" where
  reach_init: "reachable ps (PredictionMarketModel_init ps)"
| reach_reset: "reachable ps s \<Longrightarrow> reachable ps (s\<lparr>volume := 0\<rparr>)"
| reach_buy: "reachable ps s \<Longrightarrow> i < length ps \<Longrightarrow> buy i s = Inr s' \<Longrightarrow> reachable ps s'"
| reach_sell: "reachable ps s \<Longrightarrow> i < length ps \<Longrightarrow> sell i s = Inr s' \<Longrightarrow> reachable ps s'"
| reach_bid_query: "reachable ps s \<Longrightarrow> get_highest_bid s = Inr (p, s') \<Longrightarrow> reachable ps s'"
| reach_ask_query: "reachable ps s \<Longrightarrow> get_lowest_ask s = Inr (p, s') \<Longrightarrow> reachable ps s'"

text \<open>
  The matching pairs of a state: a buyer and a distinct seller whose ask does not exceed
  the buyer's bid.
\<close>

definition matching_pairs :: "market \<Rightarrow> (nat \<times> nat) list" where
  "matching_pairs s =
     filter (\<lambda>ij. fst ij \<noteq> snd ij \<and> ask (agents s ! snd ij) \<le> bid (agents s ! fst ij))
       (List.product [0..<length (agents s)] [0..<length (agents s)])"


subsection \<open>Concrete markets\<close>

text \<open>
  States of three small markets, named after the beliefs of their agents and the number
  of steps that lead to them. The lemmas on concrete runs below show how each is reached
  from the constructed market.
\<close>

abbreviation two_agents_1 :: market where
  "two_agents_1 \<equiv>
     \<lparr>agents = [\<lparr>prob = 9/10, bid = 1/100, ask = 99/100\<rparr>,
                \<lparr>prob = 1/10, bid = 1/100, ask = 99/100\<rparr>],
      bidders = [(1, 1/100), (0, 1/100)], askers = [(1, 99/100), (0, 99/100)], volume = 0\<rparr>"

abbreviation two_agents_50 :: market where
  "two_agents_50 \<equiv>
     \<lparr>agents = [\<lparr>prob = 9/10, bid = 1/2, ask = 91/100\<rparr>,
                \<lparr>prob = 1/10, bid = 9/100, ask = 1/2\<rparr>],
      bidders = [(1, 9/100), (0, 1/2)], askers = [(0, 91/100), (1, 1/2)], volume = 0\<rparr>"

abbreviation two_agents_51 :: market where
  "two_agents_51 \<equiv>
     \<lparr>agents = [\<lparr>prob = 9/10, bid = 49/100, ask = 91/100\<rparr>,
                \<lparr>prob = 1/10, bid = 9/100, ask = 49/100\<rparr>],
      bidders = [(1, 9/100), (0, 49/100)], askers = [(0, 91/100), (1, 49/100)], volume = 1\<rparr>"

abbreviation half_tenth_50 :: market where
  "half_tenth_50 \<equiv>
     \<lparr>agents = [\<lparr>prob = 1/2, bid = 49/100, ask = 51/100\<rparr>,
                \<lparr>prob = 1/10, bid = 9/100, ask = 1/2\<rparr>],
      bidders = [(1, 9/100), (0, 49/100)], askers = [(0, 51/100), (1, 1/2)], volume = 0\<rparr>"

abbreviation half_tenth_51 :: market where
  "half_tenth_51 \<equiv>
     \<lparr>agents = [\<lparr>prob = 1/2, bid = 48/100, ask = 51/100\<rparr>,
                \<lparr>prob = 1/10, bid = 9/100, ask = 49/100\<rparr>],
      bidders = [(1, 9/100), (0, 48/100)], askers = [(0, 51/100)], volume = 1\<rparr>"



abbreviation full_book_50 :: market where
  "full_book_50 \<equiv>
     \<lparr>agents = [\<lparr>prob = 9/10, bid = 1/2, ask = 91/100\<rparr>,
                \<lparr>prob = 1/2, bid = 49/100, ask = 51/100\<rparr>,
                \<lparr>prob = 1/10, bid = 9/100, ask = 1/2\<rparr>],
      bidders = [(2, 9/100), (1, 49/100), (0, 1/2)],
      askers = [(0, 91/100), (1, 51/100), (2, 1/2)], volume = 0\<rparr>"

section \<open>Ordered dictionaries\<close>

lemma popitem_nonempty: "d \<noteq> [] \<Longrightarrow> popitem d = Inr (last d, butlast d)"
  by (cases d) simp_all

lemma setitem_fresh: "k \<notin> fst ` set d \<Longrightarrow> setitem k v d = d @ [(k, v)]"
  by (induction d) auto

lemma setitem_keys: "fst ` set (setitem k v d) = insert k (fst ` set d)"
  by (induction d) auto

lemma setitem_map_fst:
  "map fst (setitem k v d) = (if k \<in> fst ` set d then map fst d else map fst d @ [k])"
  by (induction d) auto

lemma setitem_distinct: "distinct (map fst d) \<Longrightarrow> distinct (map fst (setitem k v d))"
  by (simp add: setitem_map_fst)

lemma setitem_set:
  "distinct (map fst d) \<Longrightarrow> set (setitem k v d) = insert (k, v) {x \<in> set d. fst x \<noteq> k}"
  by (induction d) (auto simp: image_iff)

lemma setitem_last_butlast:
  assumes "distinct (map fst d)" "d \<noteq> []"
  shows "setitem (fst (last d)) (snd (last d)) (butlast d) = d"
proof -
  from assms(2) have d: "d = butlast d @ [last d]" by simp
  with assms(1) have "distinct (map fst (butlast d) @ [fst (last d)])"
    by (metis list.simps(8,9) map_append)
  then have "fst (last d) \<notin> fst ` set (butlast d)" by auto
  then have "setitem (fst (last d)) (snd (last d)) (butlast d) = butlast d @ [last d]"
    by (simp add: setitem_fresh)
  with d show ?thesis by simp
qed

lemma sorted_items_set [simp]: "set (sorted_items r d) = set d"
  by (simp add: sorted_items_def)

lemma sorted_items_distinct [simp]: "distinct (map fst (sorted_items r d)) = distinct (map fst d)"
  by (simp add: sorted_items_def distinct_map)

lemma sorted_items_asc: "sorted (map snd (sorted_items False d))"
  by (simp add: sorted_items_def)

lemma sorted_items_desc: "sorted (map (\<lambda>kv. - snd kv) (sorted_items True d))"
  by (simp add: sorted_items_def)

lemma sorted_items_length [simp]: "length (sorted_items r d) = length d"
  by (simp add: sorted_items_def)

section \<open>No attempt raises\<close>

lemma setitem_nonempty [simp]: "setitem k v d \<noteq> []"
  by (cases d) auto

lemma get_lowest_ask_total:
  "\<exists>p bk. get_lowest_ask s = Inr (p, s\<lparr>askers := bk\<rparr>) \<and> (askers s \<noteq> [] \<longrightarrow> bk \<noteq> [])"
proof (cases "askers s = []")
  case True
  then have "get_lowest_ask s = Inr (None, s\<lparr>askers := askers s\<rparr>)"
    by (simp add: get_lowest_ask_def)
  with True show ?thesis by blast
next
  case False
  then have "get_lowest_ask s =
      Inr (Some (snd (last (askers s))),
           s\<lparr>askers := setitem (fst (last (askers s))) (snd (last (askers s))) (butlast (askers s))\<rparr>)"
    by (simp add: get_lowest_ask_def popitem_nonempty)
  then show ?thesis by (metis setitem_nonempty)
qed

lemma get_highest_bid_total:
  "\<exists>p bk. get_highest_bid s = Inr (p, s\<lparr>bidders := bk\<rparr>) \<and> (bidders s \<noteq> [] \<longrightarrow> bk \<noteq> [])"
proof (cases "bidders s = []")
  case True
  then have "get_highest_bid s = Inr (None, s\<lparr>bidders := bidders s\<rparr>)"
    by (simp add: get_highest_bid_def)
  with True show ?thesis by blast
next
  case False
  then have "get_highest_bid s =
      Inr (Some (snd (last (bidders s))),
           s\<lparr>bidders := setitem (fst (last (bidders s))) (snd (last (bidders s))) (butlast (bidders s))\<rparr>)"
    by (simp add: get_highest_bid_def popitem_nonempty)
  then show ?thesis by (metis setitem_nonempty)
qed

lemma buy_total: "\<exists>s'. buy i s = Inr s'"
proof (cases "askers s = []")
  case True
  then show ?thesis by (simp add: buy_def)
next
  case False
  obtain p bk where q: "get_lowest_ask s = Inr (p, s\<lparr>askers := bk\<rparr>)" and bk: "bk \<noteq> []"
    using get_lowest_ask_total [of s] False by blast
  show ?thesis
    using False q bk by (simp add: buy_def popitem_nonempty Let_def)
qed

lemma sell_total: "\<exists>s'. sell i s = Inr s'"
proof (cases "bidders s = []")
  case True
  then show ?thesis by (simp add: sell_def)
next
  case False
  obtain p bk where q: "get_highest_bid s = Inr (p, s\<lparr>bidders := bk\<rparr>)" and bk: "bk \<noteq> []"
    using get_highest_bid_total [of s] False by blast
  show ?thesis
    using False q bk by (simp add: sell_def popitem_nonempty Let_def)
qed

lemma agent_step_total: "\<exists>s'. agent_step i s = Inr s'"
proof -
  obtain s1 where "buy i s = Inr s1" using buy_total by blast
  moreover obtain s2 where "sell i s1 = Inr s2" using sell_total by blast
  ultimately show ?thesis by (simp add: agent_step_def)
qed

lemma schedule_step_total: "\<exists>s'. schedule_step order s = Inr s'"
proof (induction order arbitrary: s)
  case Nil
  show ?case by simp
next
  case (Cons i order)
  obtain s1 where "agent_step i s = Inr s1" using agent_step_total by blast
  with Cons [of s1] show ?case by simp
qed

lemma collect_total: "\<exists>r s'. collect s = Inr (r, s')"
proof -
  obtain p bk where b: "get_highest_bid s = Inr (p, s\<lparr>bidders := bk\<rparr>)"
    using get_highest_bid_total by blast
  obtain q ak where a: "get_lowest_ask (s\<lparr>bidders := bk\<rparr>) = Inr (q, s\<lparr>bidders := bk, askers := ak\<rparr>)"
    using get_lowest_ask_total [of "s\<lparr>bidders := bk\<rparr>"] by auto
  show ?thesis by (simp add: collect_def a b)
qed

lemma step_total: "\<exists>r s'. step order s = Inr (r, s')"
proof -
  obtain s1 where "schedule_step order (s\<lparr>volume := 0\<rparr>) = Inr s1"
    using schedule_step_total by blast
  moreover obtain r s2 where "collect s1 = Inr (r, s2)" using collect_total by blast
  ultimately have "step order s = Inr (r, s2)" by (simp add: step_def)
  then show ?thesis by blast
qed

lemma run_model_total: "\<exists>s'. run_model orders s = Inr s'"
proof (induction orders arbitrary: s)
  case Nil
  show ?case by simp
next
  case (Cons order orders)
  obtain r s1 where "step order s = Inr (r, s1)" using step_total by blast
  with Cons [of s1] show ?case by simp
qed

section \<open>The reporters leave a dictionary as it is\<close>

lemma get_lowest_ask_id:
  assumes "distinct (map fst (askers s))"
  shows "get_lowest_ask s =
         Inr (if askers s = [] then None else Some (snd (last (askers s))), s)"
proof (cases "askers s = []")
  case True
  then show ?thesis by (simp add: get_lowest_ask_def)
next
  case False
  with assms show ?thesis
    by (simp add: get_lowest_ask_def popitem_nonempty setitem_last_butlast)
qed

lemma get_highest_bid_id:
  assumes "distinct (map fst (bidders s))"
  shows "get_highest_bid s =
         Inr (if bidders s = [] then None else Some (snd (last (bidders s))), s)"
proof (cases "bidders s = []")
  case True
  then show ?thesis by (simp add: get_highest_bid_def)
next
  case False
  with assms show ?thesis
    by (simp add: get_highest_bid_def popitem_nonempty setitem_last_butlast)
qed

lemma buy_eq:
  assumes "distinct (map fst (askers s))"
  shows "buy i s = Inr
    (if askers s = [] then s
     else if buy_trades i s then
       (place_bid i (update_bid (agents s ! i) None False) (s\<lparr>askers := butlast (askers s)\<rparr>))
         \<lparr>volume := volume s + 1\<rparr>
     else place_bid i (update_bid (agents s ! i) None True) s)"
  using assms
  by (simp add: buy_def get_lowest_ask_id popitem_nonempty Let_def buy_trades_def
      place_bid_def update_bid_def)

lemma sell_eq:
  assumes "distinct (map fst (bidders s))"
  shows "sell i s = Inr
    (if bidders s = [] then s
     else if sell_trades i s then
       (place_ask i (update_ask (agents s ! i) None False) (s\<lparr>bidders := butlast (bidders s)\<rparr>))
         \<lparr>volume := volume s + 1\<rparr>
     else place_ask i (update_ask (agents s ! i) None True) s)"
  using assms
  by (simp add: sell_def get_highest_bid_id popitem_nonempty Let_def sell_trades_def
      place_ask_def update_ask_def)

section \<open>The constructed market\<close>

lemma round2_grid: "\<exists>n::int. round2 p = of_int n / 100"
  by (simp add: round2_def Let_def)

lemma clamp_prob_range: "1/100 \<le> clamp_prob p \<and> clamp_prob p \<le> 99/100"
proof -
  obtain n :: int where n: "round2 p = of_int n / 100" using round2_grid by blast
  show ?thesis
  proof (cases "round2 p \<ge> 1 \<or> round2 p \<le> 0")
    case True
    then show ?thesis by (auto simp: clamp_prob_def Let_def)
  next
    case False
    with n have "0 < n" "n < 100" by auto
    then have "1 \<le> n" "n \<le> 99" by auto
    then have "1 \<le> (of_int n :: real)" "(of_int n :: real) \<le> 99"
      by (simp_all add: of_int_le_numeral_iff [symmetric] del: of_int_le_numeral_iff)
    with False n show ?thesis by (simp add: clamp_prob_def Let_def)
  qed
qed

lemma create_agents_eq:
  "create_agents i ps \<lparr>agents = as, bidders = map (\<lambda>k. (k, 0)) [0..<i],
                        askers = map (\<lambda>k. (k, 1)) [0..<i], volume = v\<rparr> =
   \<lparr>agents = as @ map new_agent ps, bidders = map (\<lambda>k. (k, 0)) [0..<i + length ps],
    askers = map (\<lambda>k. (k, 1)) [0..<i + length ps], volume = v\<rparr>"
proof (induction ps arbitrary: i as)
  case Nil
  show ?case by simp
next
  case (Cons p ps)
  have b: "setitem i 0 (map (\<lambda>k. (k, 0)) [0..<i]) = map (\<lambda>k. (k, 0)) [0..<Suc i]"
    by (subst setitem_fresh) (auto simp: image_iff)
  have a: "setitem i 1 (map (\<lambda>k. (k, 1)) [0..<i]) = map (\<lambda>k. (k, 1)) [0..<Suc i]"
    by (subst setitem_fresh) (auto simp: image_iff)
  have "PredictionAgent_init p i \<lparr>agents = as, bidders = map (\<lambda>k. (k, 0)) [0..<i],
                        askers = map (\<lambda>k. (k, 1)) [0..<i], volume = v\<rparr> =
        \<lparr>agents = as @ [new_agent p], bidders = map (\<lambda>k. (k, 0)) [0..<Suc i],
                        askers = map (\<lambda>k. (k, 1)) [0..<Suc i], volume = v\<rparr>"
    unfolding PredictionAgent_init_def Let_def new_agent_def using a b by simp
  then show ?case using Cons.IH [of "Suc i" "as @ [new_agent p]"] by simp
qed

lemma init_eq:
  "PredictionMarketModel_init ps =
   \<lparr>agents = map new_agent ps, bidders = map (\<lambda>k. (k, 0)) [0..<length ps],
    askers = map (\<lambda>k. (k, 1)) [0..<length ps], volume = 0\<rparr>"
  using create_agents_eq [of 0 ps "[]" 0]
  by (simp add: PredictionMarketModel_init_def empty_market_def)

lemma new_agent_ok: "quote_ok (new_agent p)"
  using clamp_prob_range [of p] by (simp add: quote_ok_def new_agent_def)

lemma init_range_ok: "range_ok (PredictionMarketModel_init ps)"
  by (simp add: init_eq range_ok_def list_all_iff new_agent_ok)

lemma init_book_ok: "book_ok (PredictionMarketModel_init ps)"
  by (simp add: init_eq book_ok_def list_all_iff distinct_map inj_on_def new_agent_def
      sorted_map o_def)

section \<open>Invariants of an attempt\<close>

subsection \<open>Range of the quotes\<close>

lemma update_bid_ok: "quote_ok a \<Longrightarrow> quote_ok (a\<lparr>bid := update_bid a r f\<rparr>)"
  by (auto simp: quote_ok_def update_bid_def Let_def)

lemma update_ask_ok: "quote_ok a \<Longrightarrow> quote_ok (a\<lparr>ask := update_ask a r f\<rparr>)"
  by (auto simp: quote_ok_def update_ask_def Let_def)

lemma list_all_update:
  assumes "list_all P xs" "i < length xs \<Longrightarrow> P y"
  shows "list_all P (xs[i := y])"
proof (cases "i < length xs")
  case True
  with assms show ?thesis
    using set_update_subset_insert [of xs i y] by (auto simp: list_all_iff)
next
  case False
  then have "xs[i := y] = xs" by (simp add: list_update_beyond)
  with assms(1) show ?thesis by simp
qed

lemma place_bid_range:
  assumes "range_ok s" "agents t = agents s"
  shows "range_ok (place_bid i (update_bid (agents s ! i) r f) t)"
proof -
  have "i < length (agents s) \<Longrightarrow> quote_ok ((agents s ! i)\<lparr>bid := update_bid (agents s ! i) r f\<rparr>)"
    using assms(1) by (simp add: range_ok_def list_all_length update_bid_ok)
  then show ?thesis
    using assms by (simp add: range_ok_def place_bid_def list_all_update)
qed

lemma place_ask_range:
  assumes "range_ok s" "agents t = agents s"
  shows "range_ok (place_ask i (update_ask (agents s ! i) r f) t)"
proof -
  have "i < length (agents s) \<Longrightarrow> quote_ok ((agents s ! i)\<lparr>ask := update_ask (agents s ! i) r f\<rparr>)"
    using assms(1) by (simp add: range_ok_def list_all_length update_ask_ok)
  then show ?thesis
    using assms by (simp add: range_ok_def place_ask_def list_all_update)
qed

lemma get_lowest_ask_agents:
  "get_lowest_ask s = Inr (p, s') \<Longrightarrow> agents s' = agents s \<and> volume s' = volume s \<and> bidders s' = bidders s"
  using get_lowest_ask_total [of s] by auto

lemma get_highest_bid_agents:
  "get_highest_bid s = Inr (p, s') \<Longrightarrow> agents s' = agents s \<and> volume s' = volume s \<and> askers s' = askers s"
  using get_highest_bid_total [of s] by auto

lemma buy_range:
  assumes "buy i s = Inr s'" "range_ok s"
  shows "range_ok s'"
proof (cases "askers s = []")
  case True
  with assms show ?thesis by (simp add: buy_def)
next
  case False
  obtain p bk where q: "get_lowest_ask s = Inr (p, s\<lparr>askers := bk\<rparr>)" and bk: "bk \<noteq> []"
    using get_lowest_ask_total [of s] False by blast
  have r: "range_ok (s'\<lparr>volume := v\<rparr>) = range_ok s'" for s' v
    by (simp add: range_ok_def)
  from assms(1) False q bk have
    "s' = (place_bid i (update_bid (agents s ! i) p False) (s\<lparr>askers := butlast bk\<rparr>))
            \<lparr>volume := volume (place_bid i (update_bid (agents s ! i) p False) (s\<lparr>askers := butlast bk\<rparr>)) + 1\<rparr>
     \<or> s' = place_bid i (update_bid (agents s ! i) p True) (s\<lparr>askers := bk\<rparr>)"
    by (auto simp: buy_def popitem_nonempty Let_def split: if_splits)
  then show ?thesis
    using assms(2) by (auto simp: r intro!: place_bid_range)
qed

lemma sell_range:
  assumes "sell i s = Inr s'" "range_ok s"
  shows "range_ok s'"
proof (cases "bidders s = []")
  case True
  with assms show ?thesis by (simp add: sell_def)
next
  case False
  obtain p bk where q: "get_highest_bid s = Inr (p, s\<lparr>bidders := bk\<rparr>)" and bk: "bk \<noteq> []"
    using get_highest_bid_total [of s] False by blast
  have r: "range_ok (s'\<lparr>volume := v\<rparr>) = range_ok s'" for s' v
    by (simp add: range_ok_def)
  from assms(1) False q bk have
    "s' = (place_ask i (update_ask (agents s ! i) p False) (s\<lparr>bidders := butlast bk\<rparr>))
            \<lparr>volume := volume (place_ask i (update_ask (agents s ! i) p False) (s\<lparr>bidders := butlast bk\<rparr>)) + 1\<rparr>
     \<or> s' = place_ask i (update_ask (agents s ! i) p True) (s\<lparr>bidders := bk\<rparr>)"
    by (auto simp: sell_def popitem_nonempty Let_def split: if_splits)
  then show ?thesis
    using assms(2) by (auto simp: r intro!: place_ask_range)
qed

subsection \<open>The book\<close>

lemma place_bid_book:
  assumes "book_ok s" "i < length (agents s)"
  shows "book_ok (place_bid i b s)"
proof -
  have d: "distinct (map fst (bidders s))" using assms(1) by (simp add: book_ok_def)
  have "list_all (\<lambda>kv. fst kv < length (agents s) \<and>
          snd kv = bid ((agents s)[i := (agents s ! i)\<lparr>bid := b\<rparr>] ! fst kv))
          (sorted_items False (setitem i b (bidders s)))"
    using assms by (auto simp: list_all_iff setitem_set [OF d] book_ok_def nth_list_update)
  moreover have "list_all (\<lambda>kv. fst kv < length (agents s) \<and>
          snd kv = ask ((agents s)[i := (agents s ! i)\<lparr>bid := b\<rparr>] ! fst kv)) (askers s)"
    using assms by (auto simp: list_all_iff book_ok_def nth_list_update)
  ultimately show ?thesis
    using assms d by (simp add: book_ok_def place_bid_def setitem_distinct sorted_items_asc)
qed

lemma place_ask_book:
  assumes "book_ok s" "i < length (agents s)"
  shows "book_ok (place_ask i a s)"
proof -
  have d: "distinct (map fst (askers s))" using assms(1) by (simp add: book_ok_def)
  have "list_all (\<lambda>kv. fst kv < length (agents s) \<and>
          snd kv = ask ((agents s)[i := (agents s ! i)\<lparr>ask := a\<rparr>] ! fst kv))
          (sorted_items True (setitem i a (askers s)))"
    using assms by (auto simp: list_all_iff setitem_set [OF d] book_ok_def nth_list_update)
  moreover have "list_all (\<lambda>kv. fst kv < length (agents s) \<and>
          snd kv = bid ((agents s)[i := (agents s ! i)\<lparr>ask := a\<rparr>] ! fst kv)) (bidders s)"
    using assms by (auto simp: list_all_iff book_ok_def nth_list_update)
  ultimately show ?thesis
    using assms d by (simp add: book_ok_def place_ask_def setitem_distinct sorted_items_desc)
qed

lemma sorted_map_butlast: "sorted (map f xs) \<Longrightarrow> sorted (map f (butlast xs))"
  by (simp add: map_butlast sorted_butlast)

lemma list_all_butlast: "list_all P xs \<Longrightarrow> list_all P (butlast xs)"
  by (auto simp: list_all_iff dest: in_set_butlastD)

lemma drop_ask_book: "book_ok s \<Longrightarrow> book_ok (s\<lparr>askers := butlast (askers s)\<rparr>)"
  by (simp add: book_ok_def sorted_butlast list_all_butlast distinct_butlast map_butlast)

lemma drop_bid_book: "book_ok s \<Longrightarrow> book_ok (s\<lparr>bidders := butlast (bidders s)\<rparr>)"
  by (simp add: book_ok_def sorted_butlast list_all_butlast distinct_butlast map_butlast)

lemma volume_book [simp]: "book_ok (s\<lparr>volume := v\<rparr>) = book_ok s"
  by (simp add: book_ok_def)

lemma buy_book:
  assumes "buy i s = Inr s'" "book_ok s" "i < length (agents s)"
  shows "book_ok s'"
proof -
  have d: "distinct (map fst (askers s))" using assms(2) by (simp add: book_ok_def)
  show ?thesis
    using assms(1) assms(2,3)
    by (auto simp: buy_eq [OF d] place_bid_book drop_ask_book split: if_splits)
qed

lemma sell_book:
  assumes "sell i s = Inr s'" "book_ok s" "i < length (agents s)"
  shows "book_ok s'"
proof -
  have d: "distinct (map fst (bidders s))" using assms(2) by (simp add: book_ok_def)
  show ?thesis
    using assms(1) assms(2,3)
    by (auto simp: sell_eq [OF d] place_ask_book drop_bid_book split: if_splits)
qed



subsection \<open>What an attempt leaves alone\<close>

lemma map_field_same:
  assumes "f y = f (xs ! i)"
  shows "map f (xs[i := y]) = map f xs"
proof (cases "i < length xs")
  case True
  have "(map f xs)[i := map f xs ! i] = map f xs" by (rule list_update_id)
  with True assms show ?thesis by (simp add: map_update)
next
  case False
  then show ?thesis by (simp add: list_update_beyond)
qed

lemma buy_agents:
  assumes "buy i s = Inr s'"
  shows "map ask (agents s') = map ask (agents s) \<and>
         (\<forall>k. k \<noteq> i \<longrightarrow> agents s' ! k = agents s ! k)"
proof (cases "askers s = []")
  case True
  with assms show ?thesis by (simp add: buy_def)
next
  case False
  obtain p bk where q: "get_lowest_ask s = Inr (p, s\<lparr>askers := bk\<rparr>)" and bk: "bk \<noteq> []"
    using get_lowest_ask_total [of s] False by blast
  from assms False q bk obtain b where
    "agents s' = (agents s)[i := (agents s ! i)\<lparr>bid := b\<rparr>]"
    by (auto simp: buy_def popitem_nonempty Let_def place_bid_def split: if_splits)
  then show ?thesis by (simp add: map_field_same)
qed

lemma sell_agents:
  assumes "sell i s = Inr s'"
  shows "map bid (agents s') = map bid (agents s) \<and>
         (\<forall>k. k \<noteq> i \<longrightarrow> agents s' ! k = agents s ! k)"
proof (cases "bidders s = []")
  case True
  with assms show ?thesis by (simp add: sell_def)
next
  case False
  obtain p bk where q: "get_highest_bid s = Inr (p, s\<lparr>bidders := bk\<rparr>)" and bk: "bk \<noteq> []"
    using get_highest_bid_total [of s] False by blast
  from assms False q bk obtain a where
    "agents s' = (agents s)[i := (agents s ! i)\<lparr>ask := a\<rparr>]"
    by (auto simp: sell_def popitem_nonempty Let_def place_ask_def split: if_splits)
  then show ?thesis by (simp add: map_field_same)
qed

section \<open>Reachable states\<close>

lemma map_prob_same:
  assumes "prob y = prob (xs ! i)"
  shows "map prob (xs[i := y]) = map prob xs"
proof (cases "i < length xs")
  case True
  have "(map prob xs)[i := map prob xs ! i] = map prob xs" by (rule list_update_id)
  with True assms show ?thesis by (simp add: map_update)
next
  case False
  then show ?thesis by (simp add: list_update_beyond)
qed

lemma map_prob_bid: "map prob (xs[i := (xs ! i)\<lparr>bid := b\<rparr>]) = map prob xs"
  by (rule map_prob_same) simp

lemma map_prob_ask: "map prob (xs[i := (xs ! i)\<lparr>ask := a\<rparr>]) = map prob xs"
  by (rule map_prob_same) simp

lemma buy_probs:
  assumes "buy i s = Inr s'" "book_ok s"
  shows "map prob (agents s') = map prob (agents s)"
proof -
  have d: "distinct (map fst (askers s))" using assms(2) by (simp add: book_ok_def)
  show ?thesis
    using assms(1) by (auto simp: buy_eq [OF d] place_bid_def map_prob_bid split: if_splits)
qed

lemma sell_probs:
  assumes "sell i s = Inr s'" "book_ok s"
  shows "map prob (agents s') = map prob (agents s)"
proof -
  have d: "distinct (map fst (bidders s))" using assms(2) by (simp add: book_ok_def)
  show ?thesis
    using assms(1) by (auto simp: sell_eq [OF d] place_ask_def map_prob_ask split: if_splits)
qed

lemma query_bid_same: "book_ok s \<Longrightarrow> get_highest_bid s = Inr (p, s') \<Longrightarrow> s' = s"
  by (simp add: get_highest_bid_id book_ok_def)

lemma query_ask_same: "book_ok s \<Longrightarrow> get_lowest_ask s = Inr (p, s') \<Longrightarrow> s' = s"
  by (simp add: get_lowest_ask_id book_ok_def)

lemma reachable_inv:
  assumes "reachable ps s"
  shows "book_ok s \<and> range_ok s \<and> map prob (agents s) = map clamp_prob ps"
  using assms
proof (induction rule: reachable.induct)
  case reach_init
  show ?case
    by (simp add: init_book_ok init_range_ok) (simp add: init_eq new_agent_def o_def)
next
  case (reach_reset s)
  then show ?case by (simp add: range_ok_def)
next
  case (reach_buy s i s')
  then have "length (agents s) = length ps" by (metis length_map)
  with reach_buy show ?case by (simp add: buy_book buy_range buy_probs)
next
  case (reach_sell s i s')
  then have "length (agents s) = length ps" by (metis length_map)
  with reach_sell show ?case by (simp add: sell_book sell_range sell_probs)
next
  case (reach_bid_query s p s')
  then show ?case using query_bid_same by blast
next
  case (reach_ask_query s p s')
  then show ?case using query_ask_same by blast
qed

lemma schedule_step_reachable:
  "reachable ps s \<Longrightarrow> set order \<subseteq> {..<length ps} \<Longrightarrow> schedule_step order s = Inr s' \<Longrightarrow>
   reachable ps s'"
proof (induction order arbitrary: s)
  case Nil
  then show ?case by simp
next
  case (Cons i order)
  obtain s1 where b: "buy i s = Inr s1" using buy_total by blast
  obtain s2 where c: "sell i s1 = Inr s2" using sell_total by blast
  from Cons.prems have i: "i < length ps" by simp
  have "reachable ps s2"
    using reach_sell [OF reach_buy [OF Cons.prems(1) i b] i c] .
  moreover have "schedule_step order s2 = Inr s'"
    using Cons.prems(3) b c by (simp add: agent_step_def)
  ultimately show ?case using Cons.IH Cons.prems(2) by simp
qed

lemma collect_reachable:
  assumes "reachable ps s" "collect s = Inr (r, s')"
  shows "reachable ps s'"
proof -
  obtain p s1 where b: "get_highest_bid s = Inr (p, s1)"
    using get_highest_bid_total [of s] by blast
  obtain q s2 where a: "get_lowest_ask s1 = Inr (q, s2)"
    using get_lowest_ask_total [of s1] by blast
  have "s' = s2" using assms(2) a b by (simp add: collect_def)
  then show ?thesis
    using reach_ask_query [OF reach_bid_query [OF assms(1) b] a] by simp
qed

lemma step_reachable:
  assumes "reachable ps s" "set order \<subseteq> {..<length ps}" "step order s = Inr (r, s')"
  shows "reachable ps s'"
proof -
  obtain s1 where s1: "schedule_step order (s\<lparr>volume := 0\<rparr>) = Inr s1"
    using schedule_step_total by blast
  have "reachable ps s1"
    using schedule_step_reachable [OF reach_reset [OF assms(1)] assms(2) s1] .
  moreover have "collect s1 = Inr (r, s')" using assms(3) s1 by (simp add: step_def)
  ultimately show ?thesis by (rule collect_reachable)
qed

lemma run_model_reachable:
  "reachable ps s \<Longrightarrow> list_all (\<lambda>order. set order \<subseteq> {..<length ps}) orders \<Longrightarrow>
   run_model orders s = Inr s' \<Longrightarrow> reachable ps s'"
proof (induction orders arbitrary: s)
  case Nil
  then show ?case by simp
next
  case (Cons order orders)
  obtain r s1 where s1: "step order s = Inr (r, s1)" using step_total by blast
  have "reachable ps s1"
    using step_reachable [OF Cons.prems(1) _ s1] Cons.prems(2) by simp
  moreover have "run_model orders s1 = Inr s'" using Cons.prems(3) s1 by simp
  ultimately show ?case using Cons.IH Cons.prems(2) by simp
qed

lemma run_model_append:
  "run_model (xs @ ys) s =
   (case run_model xs s of Inl e \<Rightarrow> Inl e | Inr s1 \<Rightarrow> run_model ys s1)"
  by (induction xs arbitrary: s) (auto split: sum.splits)

lemmas run_defs = PredictionMarketModel_init_def empty_market_def PredictionAgent_init_def
  clamp_prob_def round2_def step_def collect_def agent_step_def buy_def sell_def place_bid_def
  place_ask_def update_bid_def update_ask_def get_lowest_ask_def get_highest_bid_def
  compute_volume_def sorted_items_def Let_def

section \<open>Rounding of the belief\<close>

lemma round2_ge_one: "1 \<le> p \<Longrightarrow> 1 \<le> round2 p"
proof -
  assume "1 \<le> p"
  then have "100 \<le> \<lfloor>p * 100\<rfloor>" by (simp add: le_floor_iff)
  then have "(100::real) \<le> of_int \<lfloor>p * 100\<rfloor>" by linarith
  then show ?thesis by (simp add: round2_def Let_def)
qed

lemma round2_le_zero: "p \<le> 0 \<Longrightarrow> round2 p \<le> 0"
proof -
  assume p: "p \<le> 0"
  define f where "f = \<lfloor>p * 100\<rfloor>"
  have f: "of_int f \<le> p * 100" "p * 100 < of_int f + 1" unfolding f_def by linarith+
  have "1/2 \<le> p * 100 - of_int f \<Longrightarrow> f + 1 \<le> 0"
  proof -
    assume "1/2 \<le> p * 100 - of_int f"
    with p have "(of_int f :: real) < 0" by linarith
    then show ?thesis by linarith
  qed
  moreover have "f \<le> 0" using f p by (simp add: f_def floor_le_zero)
  ultimately show ?thesis
    by (auto simp: round2_def Let_def f_def [symmetric] divide_le_0_iff)
qed

lemma round2_near: "\<bar>round2 p - p\<bar> \<le> 1/200"
proof -
  define f where "f = \<lfloor>p * 100\<rfloor>"
  have f: "of_int f \<le> p * 100" "p * 100 < of_int f + 1" unfolding f_def by linarith+
  then show ?thesis
    by (auto simp: round2_def Let_def f_def [symmetric] abs_if field_simps)
qed

section \<open>Volume, range and best quotes over a step\<close>

subsection \<open>Volume\<close>

lemma buy_volume:
  "\<exists>s'. buy i s = Inr s' \<and> volume s' = volume s + (if buy_trades i s then 1 else 0)"
proof (cases "askers s = []")
  case True
  then show ?thesis by (simp add: buy_def buy_trades_def)
next
  case False
  then have "get_lowest_ask s =
      Inr (Some (snd (last (askers s))),
           s\<lparr>askers := setitem (fst (last (askers s))) (snd (last (askers s))) (butlast (askers s))\<rparr>)"
    by (simp add: get_lowest_ask_def popitem_nonempty)
  with False show ?thesis
    by (simp add: buy_def buy_trades_def popitem_nonempty Let_def place_bid_def)
qed

lemma sell_volume:
  "\<exists>s'. sell i s = Inr s' \<and> volume s' = volume s + (if sell_trades i s then 1 else 0)"
proof (cases "bidders s = []")
  case True
  then show ?thesis by (simp add: sell_def sell_trades_def)
next
  case False
  then have "get_highest_bid s =
      Inr (Some (snd (last (bidders s))),
           s\<lparr>bidders := setitem (fst (last (bidders s))) (snd (last (bidders s))) (butlast (bidders s))\<rparr>)"
    by (simp add: get_highest_bid_def popitem_nonempty)
  with False show ?thesis
    by (simp add: sell_def sell_trades_def popitem_nonempty Let_def place_ask_def)
qed



lemma collect_report:
  assumes "collect s = Inr (r, s')"
  shows "snd (snd r) = volume s \<and> volume s' = volume s \<and> agents s' = agents s"
proof -
  obtain p s1 where b: "get_highest_bid s = Inr (p, s1)"
    using get_highest_bid_total [of s] by blast
  obtain q s2 where a: "get_lowest_ask s1 = Inr (q, s2)"
    using get_lowest_ask_total [of s1] by blast
  from assms a b have "r = (p, q, volume s2)" "s' = s2"
    by (auto simp: collect_def compute_volume_def)
  with get_highest_bid_agents [OF b] get_lowest_ask_agents [OF a] show ?thesis by simp
qed


subsection \<open>Range over a step\<close>

lemma schedule_step_range:
  "schedule_step order s = Inr s' \<Longrightarrow> range_ok s \<Longrightarrow> range_ok s'"
proof (induction order arbitrary: s)
  case Nil
  then show ?case by simp
next
  case (Cons i order)
  obtain s1 where b: "buy i s = Inr s1" using buy_total by blast
  obtain s2 where c: "sell i s1 = Inr s2" using sell_total by blast
  have "range_ok s2" using sell_range [OF c buy_range [OF b Cons.prems(2)]] .
  moreover have "schedule_step order s2 = Inr s'"
    using Cons.prems(1) b c by (simp add: agent_step_def)
  ultimately show ?case using Cons.IH by simp
qed

lemma step_range:
  assumes "step order s = Inr (r, s')" "range_ok s"
  shows "range_ok s'"
proof -
  obtain s1 where s1: "schedule_step order (s\<lparr>volume := 0\<rparr>) = Inr s1"
    using schedule_step_total by blast
  have "range_ok (s\<lparr>volume := 0\<rparr>)" using assms(2) by (simp add: range_ok_def)
  then have "range_ok s1" using schedule_step_range [OF s1] by simp
  moreover have "collect s1 = Inr (r, s')" using assms(1) s1 by (simp add: step_def)
  ultimately show ?thesis using collect_report [of s1 r s'] by (simp add: range_ok_def)
qed

subsection \<open>Best quotes\<close>

lemma sorted_le_last:
  fixes xs :: "real list"
  shows "sorted xs \<Longrightarrow> x \<in> set xs \<Longrightarrow> x \<le> last xs"
  by (induction xs) auto

lemma sorted_last_Max:
  fixes f :: "'a \<Rightarrow> real"
  assumes "sorted (map f xs)" "xs \<noteq> []"
  shows "f (last xs) = Max (f ` set xs)"
proof -
  have "\<And>y. y \<in> f ` set xs \<Longrightarrow> y \<le> f (last xs)"
    using sorted_le_last [OF assms(1)] assms(2) by (simp add: last_map)
  moreover have "f (last xs) \<in> f ` set xs" using assms(2) by simp
  ultimately have "Max (f ` set xs) = f (last xs)" by (intro Max_eqI) auto
  then show ?thesis by simp
qed

lemma sorted_neg_last_Min:
  fixes f :: "'a \<Rightarrow> real"
  assumes "sorted (map (\<lambda>x. - f x) xs)" "xs \<noteq> []"
  shows "f (last xs) = Min (f ` set xs)"
proof -
  have "\<And>y. y \<in> (\<lambda>x. - f x) ` set xs \<Longrightarrow> y \<le> - f (last xs)"
    using sorted_le_last [OF assms(1)] assms(2) by (simp add: last_map)
  then have "\<And>y. y \<in> f ` set xs \<Longrightarrow> f (last xs) \<le> y" by fastforce
  moreover have "f (last xs) \<in> f ` set xs" using assms(2) by simp
  ultimately have "Min (f ` set xs) = f (last xs)" by (intro Min_eqI) auto
  then show ?thesis by simp
qed

lemma book_quotes:
  assumes "book_ok s"
  shows "snd ` set (bidders s) = (\<lambda>k. bid (agents s ! k)) ` fst ` set (bidders s)"
    and "snd ` set (askers s) = (\<lambda>k. ask (agents s ! k)) ` fst ` set (askers s)"
  using assms by (auto simp: book_ok_def list_all_iff image_iff)

section \<open>A matching pair in the book\<close>







section \<open>Entries of the other agents\<close>

lemma buy_frame:
  assumes "buy i s = Inr s'" "book_ok s"
  shows "{x \<in> set (bidders s'). fst x \<noteq> i} = {x \<in> set (bidders s). fst x \<noteq> i}"
proof -
  have da: "distinct (map fst (askers s))" and db: "distinct (map fst (bidders s))"
    using assms(2) by (simp_all add: book_ok_def)
  show ?thesis
    using assms(1)
    by (auto simp: buy_eq [OF da] place_bid_def setitem_set [OF db] split: if_splits)
qed

lemma sell_frame:
  assumes "sell i s = Inr s'" "book_ok s"
  shows "{x \<in> set (askers s'). fst x \<noteq> i} = {x \<in> set (askers s). fst x \<noteq> i}"
proof -
  have da: "distinct (map fst (askers s))" and db: "distinct (map fst (bidders s))"
    using assms(2) by (simp_all add: book_ok_def)
  show ?thesis
    using assms(1)
    by (auto simp: sell_eq [OF db] place_ask_def setitem_set [OF da] split: if_splits)
qed

section \<open>Runs of three small markets\<close>

lemma run_two_agents_1:
  "run_model [[0, 1]] (PredictionMarketModel_init [9/10, 1/10]) = Inr two_agents_1"
  by (simp add: run_defs)

lemma reach_two_agents_1: "reachable [9/10, 1/10] two_agents_1"
  by (rule run_model_reachable [OF reach_init _ run_two_agents_1]) (simp add: list_all_iff)

lemma run_two_agents_50:
  "run_model (replicate 50 [0, 1]) (PredictionMarketModel_init [9/10, 1/10]) = Inr two_agents_50"
  by (simp add: run_defs eval_nat_numeral)

lemma step_two_agents_51:
  "step [0, 1] two_agents_50 = Inr ((Some (49/100), Some (49/100), 1), two_agents_51)"
  by (simp add: run_defs)

lemma run_half_tenth_50:
  "run_model (replicate 50 [0, 1]) (PredictionMarketModel_init [1/2, 1/10]) = Inr half_tenth_50"
  by (simp add: run_defs eval_nat_numeral)

lemma step_half_tenth_51:
  "step [1, 0] half_tenth_50 = Inr ((Some (48/100), Some (51/100), 1), half_tenth_51)"
  by (simp add: run_defs)

lemma run_half_tenth_51:
  "run_model (replicate 50 [0, 1] @ [[1, 0]]) (PredictionMarketModel_init [1/2, 1/10]) =
   Inr half_tenth_51"
  by (simp only: run_model_append run_half_tenth_50 sum.case run_model.simps
      step_half_tenth_51 prod.case)



lemma reach_two_agents_50: "reachable [9/10, 1/10] two_agents_50"
  by (rule run_model_reachable [OF reach_init _ run_two_agents_50]) (simp add: list_all_iff)

lemma reach_half_tenth_51: "reachable [1/2, 1/10] half_tenth_51"
  by (rule run_model_reachable [OF reach_init _ run_half_tenth_51]) (simp add: list_all_iff)

text \<open>
  A market of three agents in which the book is complete after fifty steps and exactly one
  pair matches: the next step has volume 2, because the seller quotes again after the
  first trade and the third agent buys the new ask.
\<close>

lemma full_book_one_pair_volume_two:
  "run_model (replicate 50 [0, 1, 2]) (PredictionMarketModel_init [9/10, 1/2, 1/10]) =
     Inr full_book_50 \<and>
   matching_pairs full_book_50 = [(0, 2)] \<and>
   map fst (bidders full_book_50) = [2, 1, 0] \<and> map fst (askers full_book_50) = [0, 1, 2] \<and>
   step [0, 2, 1] full_book_50 =
     Inr ((Some (49/100), Some (51/100), 2),
          \<lparr>agents = [\<lparr>prob = 9/10, bid = 49/100, ask = 91/100\<rparr>,
                     \<lparr>prob = 1/2, bid = 48/100, ask = 51/100\<rparr>,
                     \<lparr>prob = 1/10, bid = 9/100, ask = 49/100\<rparr>],
           bidders = [(2, 9/100), (1, 48/100), (0, 49/100)],
           askers = [(0, 91/100), (1, 51/100)], volume = 2\<rparr>)"
proof -
  have "run_model (replicate 50 [0, 1, 2]) (PredictionMarketModel_init [9/10, 1/2, 1/10]) =
     Inr full_book_50"
    by (simp add: run_defs eval_nat_numeral)
  moreover have "matching_pairs full_book_50 = [(0, 2)]" by code_simp
  moreover have "step [0, 2, 1] full_book_50 =
     Inr ((Some (49/100), Some (51/100), 2),
          \<lparr>agents = [\<lparr>prob = 9/10, bid = 49/100, ask = 91/100\<rparr>,
                     \<lparr>prob = 1/2, bid = 48/100, ask = 51/100\<rparr>,
                     \<lparr>prob = 1/10, bid = 9/100, ask = 49/100\<rparr>],
           bidders = [(2, 9/100), (1, 48/100), (0, 49/100)],
           askers = [(0, 91/100), (1, 51/100)], volume = 2\<rparr>)"
    by (simp add: run_defs)
  ultimately show ?thesis by simp
qed

section \<open>The claims\<close>

subsection \<open>Volume accounting\<close>




subsection \<open>Two agents with beliefs 0.90 and 0.10\<close>

text \<open>
  Claim C2, as amended. In the market of two agents with beliefs 0.90 and 0.10, in every
  reachable state each agent bids at most its belief less 0.01 and asks at least its
  belief plus 0.01; the sell attempt of the first agent and the buy attempt of the second
  never trade and leave the volume unchanged. Nothing keeps the ask of the second agent
  above the bid of the first.
\<close>

theorem disjoint_beliefs_one_direction:
  assumes "reachable [9/10, 1/10] s"
  shows "prob (agents s ! 0) = 9/10 \<and> prob (agents s ! 1) = 1/10 \<and>
         bid (agents s ! 0) \<le> prob (agents s ! 0) - 1/100 \<and>
         prob (agents s ! 0) + 1/100 \<le> ask (agents s ! 0) \<and>
         bid (agents s ! 1) \<le> prob (agents s ! 1) - 1/100 \<and>
         prob (agents s ! 1) + 1/100 \<le> ask (agents s ! 1) \<and>
         \<not> sell_trades 0 s \<and> \<not> buy_trades 1 s \<and>
         (\<exists>s'. sell 0 s = Inr s' \<and> volume s' = volume s) \<and>
         (\<exists>s'. buy 1 s = Inr s' \<and> volume s' = volume s)"
proof -
  from reachable_inv [OF assms] have bk: "book_ok s" and rg: "range_ok s"
    and pr: "map prob (agents s) = map clamp_prob [9/10, 1/10]" by simp_all
  have cp: "clamp_prob (9/10) = 9/10" "clamp_prob (1/10) = 1/10"
    by (simp_all add: clamp_prob_def round2_def Let_def)
  from pr have len: "length (agents s) = 2" by (metis length_map length_Cons list.size(3) numeral_2_eq_2)
  from pr len have p0: "prob (agents s ! 0) = 9/10" and p1: "prob (agents s ! 1) = 1/10"
    using cp nth_map [of 0 "agents s" prob] nth_map [of 1 "agents s" prob] by simp_all
  have q: "quote_ok (agents s ! 0)" "quote_ok (agents s ! 1)"
    using rg len by (simp_all add: range_ok_def list_all_length)
  have bounds: "bid (agents s ! 0) \<le> prob (agents s ! 0) - 1/100"
    "prob (agents s ! 0) + 1/100 \<le> ask (agents s ! 0)"
    "bid (agents s ! 1) \<le> prob (agents s ! 1) - 1/100"
    "prob (agents s ! 1) + 1/100 \<le> ask (agents s ! 1)"
    using q by (simp_all add: quote_ok_def)
  have k: "k < 2 \<Longrightarrow> k = 0 \<or> k = 1" for k :: nat by auto
  have bids: "snd kv < ask (agents s ! 0)" if "kv \<in> set (bidders s)" for kv
  proof -
    from that bk len have "fst kv < 2" "snd kv = bid (agents s ! fst kv)"
      by (simp_all add: book_ok_def list_all_iff)
    with k [of "fst kv"] bounds p0 p1 show ?thesis by auto
  qed
  have asks: "bid (agents s ! 1) < snd kv" if "kv \<in> set (askers s)" for kv
  proof -
    from that bk len have "fst kv < 2" "snd kv = ask (agents s ! fst kv)"
      by (simp_all add: book_ok_def list_all_iff)
    with k [of "fst kv"] bounds p0 p1 show ?thesis by auto
  qed
  have ns: "\<not> sell_trades 0 s"
  proof
    assume "sell_trades 0 s"
    then have "bidders s \<noteq> []" "ask (agents s ! 0) \<le> snd (last (bidders s))"
      by (simp_all add: sell_trades_def)
    with bids [of "last (bidders s)"] show False by simp
  qed
  have nb: "\<not> buy_trades 1 s"
  proof
    assume "buy_trades 1 s"
    then have "askers s \<noteq> []" "snd (last (askers s)) \<le> bid (agents s ! 1)"
      by (simp_all add: buy_trades_def)
    with asks [of "last (askers s)"] show False by simp
  qed
  from ns nb bounds p0 p1 sell_volume [of 0 s] buy_volume [of 1 s] show ?thesis by simp
qed

text \<open>
  The theorem at the state after the first step.
\<close>

theorem disjoint_beliefs_one_direction_witness:
  "reachable [9/10, 1/10] two_agents_1 \<and>
   \<not> sell_trades 0 two_agents_1 \<and> \<not> buy_trades 1 two_agents_1 \<and>
   (\<exists>s'. sell 0 two_agents_1 = Inr s' \<and> volume s' = 0) \<and>
   (\<exists>s'. buy 1 two_agents_1 = Inr s' \<and> volume s' = 0)"
  using disjoint_beliefs_one_direction [OF reach_two_agents_1] reach_two_agents_1 by simp

text \<open>
  The claim as stated fails: the bid of the first agent and the ask of the second meet
  at 0.50 after fifty steps, and in step 51 the first agent buys from the second. The
  step reports volume 1.
\<close>

theorem disjoint_beliefs_trade_counterexample:
  "run_model (replicate 50 [0, 1] @ [[0, 1]]) (PredictionMarketModel_init [9/10, 1/10]) =
     Inr two_agents_51 \<and>
   volume two_agents_51 = 1 \<and> buy_trades 0 two_agents_50 \<and>
   step [0, 1] two_agents_50 = Inr ((Some (49/100), Some (49/100), 1), two_agents_51)"
proof -
  have "run_model (replicate 50 [0, 1] @ [[0, 1]]) (PredictionMarketModel_init [9/10, 1/10]) =
        Inr two_agents_51"
    by (simp only: run_model_append run_two_agents_50 sum.case run_model.simps
        step_two_agents_51 prod.case)
  with step_two_agents_51 show ?thesis by (simp add: buy_trades_def)
qed

subsection \<open>Entries of the book\<close>

text \<open>
  Claim C3, as amended. The constructed market has exactly one entry for every agent in
  each collection. In every reachable state no agent has more than one entry in a
  collection, and every entry belongs to an agent and carries that agent's current quote.
  A buy attempt that trades removes the best entry of the askers and does not put it
  back, and a buy attempt that does not trade leaves the askers as they are; in the
  bidders it changes the entry of the acting agent only, which is present afterwards
  unless the askers were empty and the attempt was skipped. The same holds for a sell
  attempt with the two collections exchanged. The reporters and the reset of the volume
  leave both collections as they are. So the entry of the counterparty of a trade is
  absent until that agent's own next attempt quotes again: no attempt of another agent
  puts it back.
\<close>

theorem book_entries_invariant:
  "map fst (bidders (PredictionMarketModel_init ps)) = [0..<length ps] \<and>
   map fst (askers (PredictionMarketModel_init ps)) = [0..<length ps] \<and>
   (reachable ps s \<longrightarrow>
      length (agents s) = length ps \<and>
      distinct (map fst (bidders s)) \<and> distinct (map fst (askers s)) \<and>
      list_all (\<lambda>kv. fst kv < length ps \<and> snd kv = bid (agents s ! fst kv)) (bidders s) \<and>
      list_all (\<lambda>kv. fst kv < length ps \<and> snd kv = ask (agents s ! fst kv)) (askers s) \<and>
      (\<exists>s'. buy i s = Inr s' \<and>
            askers s' = (if buy_trades i s then butlast (askers s) else askers s) \<and>
            {x \<in> set (bidders s'). fst x \<noteq> i} = {x \<in> set (bidders s). fst x \<noteq> i} \<and>
            (askers s = [] \<longrightarrow> s' = s) \<and>
            (askers s \<noteq> [] \<longrightarrow> i \<in> fst ` set (bidders s'))) \<and>
      (\<exists>s'. sell i s = Inr s' \<and>
            bidders s' = (if sell_trades i s then butlast (bidders s) else bidders s) \<and>
            {x \<in> set (askers s'). fst x \<noteq> i} = {x \<in> set (askers s). fst x \<noteq> i} \<and>
            (bidders s = [] \<longrightarrow> s' = s) \<and>
            (bidders s \<noteq> [] \<longrightarrow> i \<in> fst ` set (askers s'))) \<and>
      (\<exists>p. get_highest_bid s = Inr (p, s)) \<and> (\<exists>p. get_lowest_ask s = Inr (p, s)) \<and>
      bidders (s\<lparr>volume := 0\<rparr>) = bidders s \<and> askers (s\<lparr>volume := 0\<rparr>) = askers s)"
proof -
  have init: "map fst (bidders (PredictionMarketModel_init ps)) = [0..<length ps]"
    "map fst (askers (PredictionMarketModel_init ps)) = [0..<length ps]"
    by (simp_all add: init_eq o_def)
  have "length (agents s) = length ps \<and>
      distinct (map fst (bidders s)) \<and> distinct (map fst (askers s)) \<and>
      list_all (\<lambda>kv. fst kv < length ps \<and> snd kv = bid (agents s ! fst kv)) (bidders s) \<and>
      list_all (\<lambda>kv. fst kv < length ps \<and> snd kv = ask (agents s ! fst kv)) (askers s) \<and>
      (\<exists>s'. buy i s = Inr s' \<and>
            askers s' = (if buy_trades i s then butlast (askers s) else askers s) \<and>
            {x \<in> set (bidders s'). fst x \<noteq> i} = {x \<in> set (bidders s). fst x \<noteq> i} \<and>
            (askers s = [] \<longrightarrow> s' = s) \<and>
            (askers s \<noteq> [] \<longrightarrow> i \<in> fst ` set (bidders s'))) \<and>
      (\<exists>s'. sell i s = Inr s' \<and>
            bidders s' = (if sell_trades i s then butlast (bidders s) else bidders s) \<and>
            {x \<in> set (askers s'). fst x \<noteq> i} = {x \<in> set (askers s). fst x \<noteq> i} \<and>
            (bidders s = [] \<longrightarrow> s' = s) \<and>
            (bidders s \<noteq> [] \<longrightarrow> i \<in> fst ` set (askers s'))) \<and>
      (\<exists>p. get_highest_bid s = Inr (p, s)) \<and> (\<exists>p. get_lowest_ask s = Inr (p, s)) \<and>
      bidders (s\<lparr>volume := 0\<rparr>) = bidders s \<and> askers (s\<lparr>volume := 0\<rparr>) = askers s"
    if r: "reachable ps s"
  proof -
    from reachable_inv [OF r] have bk: "book_ok s" and pr: "map prob (agents s) = map clamp_prob ps"
      by simp_all
    from pr have len: "length (agents s) = length ps" by (metis length_map)
    have da: "distinct (map fst (askers s))" and db: "distinct (map fst (bidders s))"
      using bk by (simp_all add: book_ok_def)
    have ents: "list_all (\<lambda>kv. fst kv < length ps \<and> snd kv = bid (agents s ! fst kv)) (bidders s)"
      "list_all (\<lambda>kv. fst kv < length ps \<and> snd kv = ask (agents s ! fst kv)) (askers s)"
      using bk len by (simp_all add: book_ok_def)
    obtain s1 where b: "buy i s = Inr s1" using buy_total by blast
    have b1: "askers s1 = (if buy_trades i s then butlast (askers s) else askers s)"
      "askers s = [] \<longrightarrow> s1 = s" "askers s \<noteq> [] \<longrightarrow> i \<in> fst ` set (bidders s1)"
      using b by (auto simp: buy_eq [OF da] place_bid_def setitem_keys buy_trades_def
          split: if_splits)
    obtain s2 where c: "sell i s = Inr s2" using sell_total by blast
    have c1: "bidders s2 = (if sell_trades i s then butlast (bidders s) else bidders s)"
      "bidders s = [] \<longrightarrow> s2 = s" "bidders s \<noteq> [] \<longrightarrow> i \<in> fst ` set (askers s2)"
      using c by (auto simp: sell_eq [OF db] place_ask_def setitem_keys sell_trades_def
          split: if_splits)
    have q: "\<exists>p. get_highest_bid s = Inr (p, s)" "\<exists>p. get_lowest_ask s = Inr (p, s)"
      by (simp_all add: get_highest_bid_id [OF db] get_lowest_ask_id [OF da])
    show ?thesis
      using len da db ents b b1 buy_frame [OF b bk] c c1 sell_frame [OF c bk] q by simp
  qed
  with init show ?thesis by blast
qed

text \<open>
  The theorem at the state after fifty steps of the market with beliefs 0.90 and 0.10,
  where the buy attempt of agent 0 trades and removes the ask of agent 1, and at the
  state that follows, where the sell attempt of agent 0 leaves agent 1 without an entry.
\<close>

theorem book_entries_invariant_witness:
  "reachable [9/10, 1/10] two_agents_50 \<and> buy_trades 0 two_agents_50 \<and>
   buy 0 two_agents_50 =
     Inr \<lparr>agents = [\<lparr>prob = 9/10, bid = 49/100, ask = 91/100\<rparr>,
                    \<lparr>prob = 1/10, bid = 9/100, ask = 1/2\<rparr>],
          bidders = [(1, 9/100), (0, 49/100)], askers = [(0, 91/100)], volume = 1\<rparr> \<and>
   reachable [9/10, 1/10]
     \<lparr>agents = [\<lparr>prob = 9/10, bid = 49/100, ask = 91/100\<rparr>,
                \<lparr>prob = 1/10, bid = 9/100, ask = 1/2\<rparr>],
      bidders = [(1, 9/100), (0, 49/100)], askers = [(0, 91/100)], volume = 1\<rparr> \<and>
   (\<exists>s'. sell 0
          \<lparr>agents = [\<lparr>prob = 9/10, bid = 49/100, ask = 91/100\<rparr>,
                     \<lparr>prob = 1/10, bid = 9/100, ask = 1/2\<rparr>],
           bidders = [(1, 9/100), (0, 49/100)], askers = [(0, 91/100)], volume = 1\<rparr> = Inr s' \<and>
         {x \<in> set (askers s'). fst x \<noteq> 0} = {})"
proof -
  let ?B = "\<lparr>agents = [\<lparr>prob = 9/10, bid = 49/100, ask = 91/100\<rparr>,
                      \<lparr>prob = 1/10, bid = 9/100, ask = 1/2\<rparr>],
            bidders = [(1, 9/100), (0, 49/100)], askers = [(0, 91/100)], volume = 1\<rparr>"
  have t: "buy_trades 0 two_agents_50" by (simp add: buy_trades_def)
  have b: "buy 0 two_agents_50 = Inr ?B" by (simp add: run_defs)
  have rb: "reachable [9/10, 1/10] ?B"
    by (rule reach_buy [OF reach_two_agents_50 _ b]) simp
  have e: "{x \<in> set (askers ?B). fst x \<noteq> 0} = {}" by auto
  show ?thesis
    using book_entries_invariant [of "[9/10, 1/10]" two_agents_50 0]
      book_entries_invariant [of "[9/10, 1/10]" ?B 0] reach_two_agents_50 t b rb
    unfolding e by auto
qed

text \<open>
  The claim as stated fails: in the market with beliefs 0.50 and 0.10, after fifty steps
  in the order 0, 1 and one step in the order 1, 0, agent 1 has no entry in the askers at
  the end of the step.
\<close>

theorem entry_absent_after_step_counterexample:
  "run_model (replicate 50 [0, 1] @ [[1, 0]]) (PredictionMarketModel_init [1/2, 1/10]) =
     Inr half_tenth_51 \<and>
   length (agents half_tenth_51) = 2 \<and> map fst (askers half_tenth_51) = [0]"
  using run_half_tenth_51 by simp

subsection \<open>Best bid and best ask\<close>

text \<open>
  Claim C4, as amended. In every reachable state the best-bid query returns the maximum
  of the current bids of the agents that have an entry in the bidders, the best-ask query
  the minimum of the current asks of the agents that have an entry in the askers, each of
  them the absent value when its collection is empty, and both leave the state as it is.
  The quote of an agent whose entry a trade has removed is not seen.
\<close>

theorem best_quote_queries:
  "reachable ps s \<Longrightarrow>
   get_highest_bid s =
     Inr (if bidders s = [] then None
          else Some (Max ((\<lambda>k. bid (agents s ! k)) ` fst ` set (bidders s))), s) \<and>
   get_lowest_ask s =
     Inr (if askers s = [] then None
          else Some (Min ((\<lambda>k. ask (agents s ! k)) ` fst ` set (askers s))), s)"
proof -
  assume "reachable ps s"
  then have bk: "book_ok s" using reachable_inv by blast
  then have d: "distinct (map fst (bidders s))" "distinct (map fst (askers s))"
    and so: "sorted (map snd (bidders s))" "sorted (map (\<lambda>kv. - snd kv) (askers s))"
    by (simp_all add: book_ok_def)
  have "bidders s \<noteq> [] \<Longrightarrow>
        snd (last (bidders s)) = Max ((\<lambda>k. bid (agents s ! k)) ` fst ` set (bidders s))"
    using sorted_last_Max [OF so(1)] book_quotes(1) [OF bk] by simp
  moreover have "askers s \<noteq> [] \<Longrightarrow>
        snd (last (askers s)) = Min ((\<lambda>k. ask (agents s ! k)) ` fst ` set (askers s))"
    using sorted_neg_last_Min [OF so(2)] book_quotes(2) [OF bk] by simp
  ultimately show ?thesis
    by (simp add: get_highest_bid_id [OF d(1)] get_lowest_ask_id [OF d(2)])
qed

text \<open>
  The theorem at a state in which one agent has no entry in the askers.
\<close>

theorem best_quote_queries_witness:
  "reachable [1/2, 1/10] half_tenth_51 \<and>
   get_highest_bid half_tenth_51 = Inr (Some (48/100), half_tenth_51) \<and>
   get_lowest_ask half_tenth_51 = Inr (Some (51/100), half_tenth_51)"
  using best_quote_queries [OF reach_half_tenth_51] reach_half_tenth_51 by simp

text \<open>
  The claim as stated fails: at the end of step 51 of the market with beliefs 0.50 and
  0.10 the best-ask query, and the row of the data collector, give 0.51, while agent 1
  asks 0.49.
\<close>

theorem best_ask_misses_agent_counterexample:
  "run_model (replicate 50 [0, 1] @ [[1, 0]]) (PredictionMarketModel_init [1/2, 1/10]) =
     Inr half_tenth_51 \<and>
   get_lowest_ask half_tenth_51 = Inr (Some (51/100), half_tenth_51) \<and>
   map ask (agents half_tenth_51) = [51/100, 49/100] \<and>
   step [1, 0] half_tenth_50 = Inr ((Some (48/100), Some (51/100), 1), half_tenth_51)"
  using run_half_tenth_51 step_half_tenth_51 by (simp add: get_lowest_ask_def)

subsection \<open>Quote updates\<close>

text \<open>
  Claim C5. For every agent and every reference price, \<open>update_bid\<close> returns
  \<open>min (bid + 0.01) (prob - 0.01)\<close> when it increases and \<open>max (bid - 0.01) 0\<close> when it
  does not; \<open>update_ask\<close> returns \<open>max (ask - 0.01) (prob + 0.01)\<close> when it decreases and
  \<open>min (ask + 0.01) 1\<close> when it does not.
\<close>

theorem update_is_min_max:
  "update_bid self r True = min (bid self + 1/100) (prob self - 1/100) \<and>
   update_bid self r False = max (bid self - 1/100) 0 \<and>
   update_ask self r True = max (ask self - 1/100) (prob self + 1/100) \<and>
   update_ask self r False = min (ask self + 1/100) 1"
  by (simp add: update_bid_def update_ask_def Let_def min_def max_def)

text \<open>
  Claim C10. The results of \<open>update_bid\<close> and \<open>update_ask\<close> do not depend on the
  reference price they are given: for every agent, every flag and any two reference
  prices the results agree.
\<close>

theorem update_independent_of_reference:
  "update_bid self r1 flag = update_bid self r2 flag \<and>
   update_ask self r1 flag = update_ask self r2 flag"
  by (simp add: update_bid_def update_ask_def)

subsection \<open>Range of the quotes\<close>

text \<open>
  Claim C6. Every agent of the constructed market bids 0 and asks 1, and an agent's bid
  is changed by its own buy attempts only, its ask by its own sell attempts only. In every
  reachable state every agent has \<open>0 \<le> bid \<le> prob - 0.01\<close> and \<open>prob + 0.01 \<le> ask \<le> 1\<close>, and
  this range is preserved by every buy attempt, every sell attempt and every step.
\<close>

theorem quote_range_invariant:
  "list_all (\<lambda>a. bid a = 0 \<and> ask a = 1) (agents (PredictionMarketModel_init ps)) \<and>
   (buy i s = Inr s1 \<longrightarrow>
      map ask (agents s1) = map ask (agents s) \<and> (k \<noteq> i \<longrightarrow> agents s1 ! k = agents s ! k)) \<and>
   (sell i s = Inr s2 \<longrightarrow>
      map bid (agents s2) = map bid (agents s) \<and> (k \<noteq> i \<longrightarrow> agents s2 ! k = agents s ! k)) \<and>
   (reachable ps s \<longrightarrow>
      list_all (\<lambda>a. 0 \<le> bid a \<and> bid a \<le> prob a - 1/100 \<and>
                     prob a + 1/100 \<le> ask a \<and> ask a \<le> 1) (agents s)) \<and>
   (range_ok s \<longrightarrow> buy i s = Inr s1 \<longrightarrow> range_ok s1) \<and>
   (range_ok s \<longrightarrow> sell i s = Inr s2 \<longrightarrow> range_ok s2) \<and>
   (range_ok s \<longrightarrow> step order s = Inr (r, s3) \<longrightarrow> range_ok s3)"
proof -
  have "list_all (\<lambda>a. bid a = 0 \<and> ask a = 1) (agents (PredictionMarketModel_init ps))"
    by (simp add: init_eq list_all_iff new_agent_def)
  moreover have "list_all (\<lambda>a. 0 \<le> bid a \<and> bid a \<le> prob a - 1/100 \<and>
                     prob a + 1/100 \<le> ask a \<and> ask a \<le> 1) (agents s)"
    if "reachable ps s"
    using reachable_inv [OF that] by (simp add: range_ok_def quote_ok_def list_all_iff)
  ultimately show ?thesis
    using buy_range sell_range step_range buy_agents [of i s s1] sell_agents [of i s s2]
    by blast
qed

text \<open>
  The theorem at the state after fifty steps of the market with beliefs 0.90 and 0.10.
\<close>

theorem quote_range_invariant_witness:
  "reachable [9/10, 1/10] two_agents_50 \<and> range_ok two_agents_50 \<and>
   buy 0 two_agents_50 =
     Inr \<lparr>agents = [\<lparr>prob = 9/10, bid = 49/100, ask = 91/100\<rparr>,
                    \<lparr>prob = 1/10, bid = 9/100, ask = 1/2\<rparr>],
          bidders = [(1, 9/100), (0, 49/100)], askers = [(0, 91/100)], volume = 1\<rparr> \<and>
   sell 1 two_agents_50 =
     Inr \<lparr>agents = [\<lparr>prob = 9/10, bid = 1/2, ask = 91/100\<rparr>,
                    \<lparr>prob = 1/10, bid = 9/100, ask = 51/100\<rparr>],
          bidders = [(1, 9/100)], askers = [(0, 91/100), (1, 51/100)], volume = 1\<rparr> \<and>
   step [0, 1] two_agents_50 = Inr ((Some (49/100), Some (49/100), 1), two_agents_51) \<and>
   range_ok two_agents_51 \<and>
   list_all (\<lambda>a. 0 \<le> bid a \<and> bid a \<le> prob a - 1/100 \<and>
                  prob a + 1/100 \<le> ask a \<and> ask a \<le> 1) (agents two_agents_50)"
proof -
  let ?B = "\<lparr>agents = [\<lparr>prob = 9/10, bid = 49/100, ask = 91/100\<rparr>,
                    \<lparr>prob = 1/10, bid = 9/100, ask = 1/2\<rparr>],
          bidders = [(1, 9/100), (0, 49/100)], askers = [(0, 91/100)], volume = 1\<rparr>"
  let ?C = "\<lparr>agents = [\<lparr>prob = 9/10, bid = 1/2, ask = 91/100\<rparr>,
                    \<lparr>prob = 1/10, bid = 9/100, ask = 51/100\<rparr>],
          bidders = [(1, 9/100)], askers = [(0, 91/100), (1, 51/100)], volume = 1\<rparr>"
  have b: "buy 0 two_agents_50 = Inr ?B" by (simp add: run_defs)
  have c: "sell 1 two_agents_50 = Inr ?C" by (simp add: run_defs)
  have b1: "buy 1 two_agents_50 = Inr two_agents_50" by (simp add: run_defs)
  have c0: "sell 0 two_agents_50 = Inr two_agents_50" by (simp add: run_defs)
  have r: "range_ok two_agents_50" by (simp add: range_ok_def quote_ok_def)
  show ?thesis
    using quote_range_invariant [of "[9/10, 1/10]" 0 two_agents_50 ?B 1 two_agents_50 "[0, 1]"
        "(Some (49/100), Some (49/100), 1)" two_agents_51]
      quote_range_invariant [of "[9/10, 1/10]" 1 two_agents_50 two_agents_50 0 ?C "[0, 1]"
        "(Some (49/100), Some (49/100), 1)" two_agents_51]
      reach_two_agents_50 r b c b1 c0 step_two_agents_51
    by simp
qed

subsection \<open>Beliefs\<close>

text \<open>
  Claim C7. For every real input the belief of the constructed agent lies between 0.01
  and 0.99 and is a multiple of 0.01: an input of at least 1 gives 0.99, an input of at
  most 0 gives 0.01, and otherwise the belief is the input rounded to two decimal places
  (or 0.99 or 0.01 when the rounded value is 1 or 0).
\<close>

theorem belief_clamped:
  "1/100 \<le> prob (last (agents (PredictionAgent_init p unique_id model))) \<and>
   prob (last (agents (PredictionAgent_init p unique_id model))) \<le> 99/100 \<and>
   (\<exists>n::int. prob (last (agents (PredictionAgent_init p unique_id model))) = of_int n / 100) \<and>
   (1 \<le> p \<longrightarrow> prob (last (agents (PredictionAgent_init p unique_id model))) = 99/100) \<and>
   (p \<le> 0 \<longrightarrow> prob (last (agents (PredictionAgent_init p unique_id model))) = 1/100) \<and>
   (0 < round2 p \<and> round2 p < 1 \<longrightarrow>
      prob (last (agents (PredictionAgent_init p unique_id model))) = round2 p) \<and>
   \<bar>round2 p - p\<bar> \<le> 1/200"
proof -
  have a: "prob (last (agents (PredictionAgent_init p unique_id model))) = clamp_prob p"
    by (simp add: PredictionAgent_init_def Let_def)
  have g: "\<exists>n::int. clamp_prob p = of_int n / 100"
  proof -
    obtain n :: int where "round2 p = of_int n / 100" using round2_grid by blast
    moreover have "(99::real) / 100 = of_int 99 / 100" "(1::real) / 100 = of_int 1 / 100"
      by simp_all
    ultimately show ?thesis unfolding clamp_prob_def Let_def by metis
  qed
  show ?thesis
    unfolding a
    using clamp_prob_range [of p] g round2_ge_one [of p] round2_le_zero [of p] round2_near [of p]
    by (auto simp: clamp_prob_def Let_def)
qed

text \<open>
  The theorem at the inputs 1.7, -0.3 and 0.8349.
\<close>

theorem belief_clamped_witness:
  "prob (last (agents (PredictionAgent_init (17/10) 0 empty_market))) = 99/100 \<and>
   prob (last (agents (PredictionAgent_init (-3/10) 0 empty_market))) = 1/100 \<and>
   round2 (8349/10000) = 83/100 \<and>
   prob (last (agents (PredictionAgent_init (8349/10000) 0 empty_market))) = 83/100"
proof -
  have r: "round2 (8349/10000) = 83/100" by (simp add: round2_def Let_def)
  show ?thesis
    using belief_clamped [of "17/10" 0 empty_market] belief_clamped [of "-3/10" 0 empty_market]
      belief_clamped [of "8349/10000" 0 empty_market] r
    by simp
qed

subsection \<open>The empty market\<close>

text \<open>
  Claim C8. The market constructed with no agent is the empty market. Every step of it
  succeeds, reports an absent best bid, an absent best ask and volume 0, and leaves the
  market empty; so does every run of any number of steps.
\<close>

theorem empty_market_steps:
  "PredictionMarketModel_init [] = empty_market \<and>
   step [] empty_market = Inr ((None, None, 0), empty_market) \<and>
   run_model (replicate n []) empty_market = Inr empty_market"
proof -
  have s: "step [] empty_market = Inr ((None, None, 0), empty_market)"
    by (simp add: step_def collect_def get_highest_bid_def get_lowest_ask_def
        compute_volume_def empty_market_def)
  have "run_model (replicate n []) empty_market = Inr empty_market"
    by (induction n) (simp_all add: s)
  with s show ?thesis by (simp add: PredictionMarketModel_init_def)
qed

subsection \<open>Removal from an empty collection\<close>

text \<open>
  Claim C9. No buy attempt and no sell attempt raises \<open>KeyError\<close>, in any state: the
  removal of the best entry is only executed after the check that the collection is not
  empty, and the query in between leaves a non-empty collection non-empty. Hence no step
  and no run raises.
\<close>

theorem attempts_never_raise:
  "(\<exists>s'. buy i s = Inr s') \<and> (\<exists>s'. sell i s = Inr s') \<and>
   (\<exists>p s'. get_lowest_ask s = Inr (p, s') \<and> (askers s \<noteq> [] \<longrightarrow> askers s' \<noteq> [])) \<and>
   (\<exists>p s'. get_highest_bid s = Inr (p, s') \<and> (bidders s \<noteq> [] \<longrightarrow> bidders s' \<noteq> [])) \<and>
   (\<exists>r s'. step order s = Inr (r, s')) \<and> (\<exists>s'. run_model orders s = Inr s')"
proof -
  have "\<exists>p s'. get_lowest_ask s = Inr (p, s') \<and> (askers s \<noteq> [] \<longrightarrow> askers s' \<noteq> [])"
    using get_lowest_ask_total [of s] by auto
  moreover have "\<exists>p s'. get_highest_bid s = Inr (p, s') \<and> (bidders s \<noteq> [] \<longrightarrow> bidders s' \<noteq> [])"
    using get_highest_bid_total [of s] by auto
  ultimately show ?thesis
    using buy_total sell_total step_total run_model_total by blast
qed

text \<open>
  The theorem at the constructed market with beliefs 0.90 and 0.10.
\<close>

theorem attempts_never_raise_witness:
  "askers (PredictionMarketModel_init [9/10, 1/10]) \<noteq> [] \<and>
   bidders (PredictionMarketModel_init [9/10, 1/10]) \<noteq> [] \<and>
   buy 0 (PredictionMarketModel_init [9/10, 1/10]) \<noteq> Inl KeyError \<and>
   sell 0 (PredictionMarketModel_init [9/10, 1/10]) \<noteq> Inl KeyError"
  using attempts_never_raise [of 0 "PredictionMarketModel_init [9/10, 1/10]" "[]" "[]"]
  by (auto simp: init_eq)

end
